theory Spec2Isabelle
  imports Main
begin

section \<open>JavaScript values and arrays\<close>

text \<open>
  The model is of the class \<open>TSMap<K, V>\<close>, the later of the two classes of
  \<open>src/index.ts\<close>. It keeps two parallel JavaScript arrays, \<open>_keys\<close> and \<open>_values\<close>, and a
  public number \<open>length\<close>. A JavaScript value is a primitive or an object; the type
  parameter \<open>'o\<close> says how objects are represented: by value (a tree, for the JSON
  conversions) or by address (for the store in which sharing is visible).
  Numbers are modelled as integers: \<open>NaN\<close>, infinities and fractions are left out.
\<close>

datatype 'o jsval = Undefined | Null | Bool bool | Num int | Str string | Object 'o

datatype ('k, 'v) tsmap =
  TSMap (keys_arr: "'k list") (values_arr: "'v list") (length_attr: nat)

text \<open>\<open>xs[i]\<close> for a number \<open>i\<close>: \<open>None\<close> stands for \<open>undefined\<close> outside the array.\<close>

definition arr_get :: "'a list \<Rightarrow> int \<Rightarrow> 'a option" where
  "arr_get xs i = (if 0 \<le> i \<and> i < int (length xs) then Some (xs ! nat i) else None)"

text \<open>\<open>xs[i] = v\<close> for \<open>i \<ge> 0\<close>: JavaScript extends the array, the holes read \<open>undefined\<close>.\<close>

definition arr_set :: "'o jsval list \<Rightarrow> nat \<Rightarrow> 'o jsval \<Rightarrow> 'o jsval list" where
  "arr_set xs i v =
     (if i < length xs then xs[i := v]
      else xs @ replicate (i - length xs) Undefined @ [v])"

text \<open>\<open>xs.indexOf(x)\<close>: the first index holding \<open>x\<close> (strict equality), or \<open>-1\<close>.\<close>

fun indexOf :: "'a list \<Rightarrow> 'a \<Rightarrow> int" where
  "indexOf [] x = -1"
| "indexOf (y # ys) x =
     (if y = x then 0 else (let i = indexOf ys x in if i > -1 then i + 1 else -1))"

text \<open>
  \<open>xs.splice(start, deleteCount, ...items)\<close>, returning the array after the call: a
  negative \<open>start\<close> counts from the end, and \<open>start\<close> is clamped to the array.
\<close>

definition arr_splice :: "'a list \<Rightarrow> int \<Rightarrow> nat \<Rightarrow> 'a list \<Rightarrow> 'a list" where
  "arr_splice xs start deleteCount items =
     (let len = int (length xs);
          rs = nat (if start < 0 then max (len + start) 0 else min start len)
      in take rs xs @ items @ drop (rs + deleteCount) xs)"

section \<open>The map\<close>

definition empty_map :: "('k, 'v) tsmap" where
  "empty_map = TSMap [] [] 0"

definition keys :: "('k, 'v) tsmap \<Rightarrow> 'k list" where
  "keys t = keys_arr t"

definition values_of :: "('k, 'v) tsmap \<Rightarrow> 'v list" where
  "values_of t = values_arr t"

definition has :: "('k, 'v) tsmap \<Rightarrow> 'k \<Rightarrow> bool" where
  "has t key = (indexOf (keys_arr t) key > -1)"

definition get :: "('k, 'o jsval) tsmap \<Rightarrow> 'k \<Rightarrow> 'o jsval" where
  "get t key =
     (let i = indexOf (keys_arr t) key
      in if i > -1 then (case arr_get (values_arr t) i of Some v \<Rightarrow> v | None \<Rightarrow> Undefined)
         else Undefined)"

definition set_kv :: "('k, 'o jsval) tsmap \<Rightarrow> 'k \<Rightarrow> 'o jsval \<Rightarrow> ('k, 'o jsval) tsmap" where
  "set_kv t key value =
     (let i = indexOf (keys_arr t) key
      in if i > -1 then TSMap (keys_arr t) (arr_set (values_arr t) (nat i) value) (length_attr t)
         else (let ks = keys_arr t @ [key]; vs = values_arr t @ [value]
               in TSMap ks vs (length vs)))"

definition size_of :: "('k, 'v) tsmap \<Rightarrow> nat" where
  "size_of t = length_attr t"

definition clear :: "('k, 'v) tsmap \<Rightarrow> ('k, 'v) tsmap" where
  "clear t = TSMap [] [] 0"

text \<open>\<open>delete\<close> returns the flag and the map after the call.\<close>

definition delete :: "('k, 'v) tsmap \<Rightarrow> 'k \<Rightarrow> bool \<times> ('k, 'v) tsmap" where
  "delete t key =
     (let i = indexOf (keys_arr t) key
      in if i > -1
         then (let ks = arr_splice (keys_arr t) i 1 []; vs = arr_splice (values_arr t) i 1 []
               in (True, TSMap ks vs (length ks)))
         else (False, t))"

text \<open>
  \<open>sortedSet\<close> compares keys with \<open>==\<close>, \<open>>\<close> and \<open><\<close>; the key type is a linear
  order (numbers, or strings), and a comparison with \<open>undefined\<close> (a read outside the
  keys array) is false. \<open>startVal || 0\<close> is \<open>0\<close> for a missing and for a zero argument.
\<close>

definition key_eq :: "'k \<Rightarrow> 'k option \<Rightarrow> bool" where
  "key_eq k x = (case x of None \<Rightarrow> False | Some y \<Rightarrow> k = y)"

definition key_gt :: "'k::linorder \<Rightarrow> 'k option \<Rightarrow> bool" where
  "key_gt k x = (case x of None \<Rightarrow> False | Some y \<Rightarrow> k > y)"

definition key_lt :: "'k::linorder \<Rightarrow> 'k option \<Rightarrow> bool" where
  "key_lt k x = (case x of None \<Rightarrow> False | Some y \<Rightarrow> k < y)"

definition start_of :: "int option \<Rightarrow> int" where
  "start_of startVal = (case startVal of None \<Rightarrow> 0 | Some s \<Rightarrow> s)"

definition end_of :: "int option \<Rightarrow> ('k, 'v) tsmap \<Rightarrow> int" where
  "end_of endVal t = (case endVal of None \<Rightarrow> int (length (keys_arr t)) - 1 | Some e \<Rightarrow> e)"

function sortedSet ::
  "('k::linorder, 'v) tsmap \<Rightarrow> 'k \<Rightarrow> 'v \<Rightarrow> int option \<Rightarrow> int option \<Rightarrow> ('k, 'v) tsmap" where
  "sortedSet t key value startVal endVal =
     (let start = start_of startVal; end = end_of endVal t
      in if length (keys_arr t) = 0
         then TSMap (keys_arr t @ [key]) (values_arr t @ [value]) (length_attr t)
         else if key_eq key (arr_get (keys_arr t) start)
         then TSMap (keys_arr t) (arr_splice (values_arr t) start 0 [value]) (length_attr t)
         else if key_eq key (arr_get (keys_arr t) end)
         then TSMap (keys_arr t) (arr_splice (values_arr t) end 0 [value]) (length_attr t)
         else if key_gt key (arr_get (keys_arr t) end)
         then TSMap (arr_splice (keys_arr t) (end + 1) 0 [key])
                    (arr_splice (values_arr t) (end + 1) 0 [value]) (length_attr t)
         else if key_lt key (arr_get (keys_arr t) start)
         then TSMap (arr_splice (keys_arr t) start 0 [key])
                    (arr_splice (values_arr t) start 0 [value]) (length_attr t)
         else if start \<ge> end then t
         else (let m = start + (end - start) div 2
               in if key_lt key (arr_get (keys_arr t) m)
                  then sortedSet t key value (Some start) (Some (m - 1))
                  else if key_gt key (arr_get (keys_arr t) m)
                  then sortedSet t key value (Some (m + 1)) (Some end)
                  else t))"
  by pat_completeness auto
termination
  by (relation "measure (\<lambda>(t, key, value, startVal, endVal).
        nat (end_of endVal t - start_of startVal))")
     (auto simp: start_of_def end_of_def)

declare sortedSet.simps [simp del]

text \<open>
  The constructor applies \<open>set\<close> to each pair of the optional input, in order. \<open>entries\<close>
  pairs each key with \<open>get\<close> of it, and \<open>clone\<close> is \<open>new TSMap(this.entries())\<close>: it copies
  the two arrays into a new map and copies each value as it is, a reference for an object.
\<close>

definition constructor :: "('k \<times> 'o jsval) list option \<Rightarrow> ('k, 'o jsval) tsmap" where
  "constructor inputMap =
     (case inputMap of None \<Rightarrow> empty_map
      | Some entries \<Rightarrow> foldl (\<lambda>t v. set_kv t (fst v) (snd v)) empty_map entries)"

definition entries :: "('k, 'o jsval) tsmap \<Rightarrow> ('k \<times> 'o jsval) list" where
  "entries t = map (\<lambda>k. (k, get t k)) (keys t)"

definition clone :: "('k, 'o jsval) tsmap \<Rightarrow> ('k, 'o jsval) tsmap" where
  "clone t = constructor (Some (entries t))"

text \<open>
  \<open>filter\<close> walks a copy of the keys array and deletes the keys for which the callback returns
  \<open>false\<close>; the callback is given the value, the key and the index in the copy.
\<close>

definition filter_by ::
  "('k, 'o jsval) tsmap \<Rightarrow> ('o jsval \<Rightarrow> 'k \<Rightarrow> nat \<Rightarrow> bool) \<Rightarrow> ('k, 'o jsval) tsmap" where
  "filter_by t callbackfn =
     foldl (\<lambda>t (v, i). if callbackfn (get t v) v i = False then snd (delete t v) else t)
       t (zip (keys_arr t) [0 ..< length (keys_arr t)])"

text \<open>A sequence of \<open>sortedSet(k, v)\<close> calls on a new map.\<close>

definition sortedSet_all :: "('k::linorder \<times> 'v) list \<Rightarrow> ('k, 'v) tsmap" where
  "sortedSet_all kvs = foldl (\<lambda>t (k, v). sortedSet t k v None None) empty_map kvs"

text \<open>A sequence of \<open>set\<close>, \<open>delete\<close> and \<open>clear\<close> calls, each applied to the map the
  previous one left.\<close>

datatype ('k, 'v) mutation = CallSet 'k 'v | CallDelete 'k | CallClear

fun mutate :: "('k, 'o jsval) tsmap \<Rightarrow> ('k, 'o jsval) mutation \<Rightarrow> ('k, 'o jsval) tsmap" where
  "mutate t (CallSet k v) = set_kv t k v"
| "mutate t (CallDelete k) = snd (delete t k)"
| "mutate t CallClear = clear t"

text \<open>Invariant I1 of the specification: the two arrays and \<open>length\<close> agree.\<close>

definition parallel_ok :: "('k, 'v) tsmap \<Rightarrow> bool" where
  "parallel_ok t = (length (keys_arr t) = length (values_arr t) \<and> length (values_arr t) = length_attr t)"


section \<open>JSON objects\<close>

text \<open>
  For \<open>fromJSON\<close> and \<open>toJSON\<close> objects are trees: an array, a plain object (its prototype
  chain and its own enumerable properties in enumeration order) or a map. The keys of a map
  in a tree are primitives: an object key is compared by identity, which a tree does not
  have. Of a prototype only the names of its own properties matter here, since no value of
  the model is a function: a chain lists these names, prototype after prototype, and ends at
  \<open>Object.prototype\<close> or at \<open>null\<close>.
\<close>

datatype prim = PUndefined | PNull | PBool bool | PNum int | PStr string

datatype chain = ObjectProto | NullProto | Via "string list" chain

datatype jobj =
    Arr "jobj jsval list"
  | Obj chain "(string \<times> jobj jsval) list"
  | MapV "(prim, jobj jsval) tsmap"

type_synonym jval = "jobj jsval"

definition prim_val :: "prim \<Rightarrow> 'o jsval" where
  "prim_val k = (case k of PUndefined \<Rightarrow> Undefined | PNull \<Rightarrow> Null | PBool b \<Rightarrow> Bool b
     | PNum n \<Rightarrow> Num n | PStr s \<Rightarrow> Str s)"

text \<open>
  The one exception of these functions: the \<open>TypeError\<close> of a call of something that is not a
  function.
\<close>

datatype error = TypeError

text \<open>
  \<open>typeof\<close>, which is \<open>object\<close> for \<open>null\<close> and for arrays too, and \<open>Array.isArray\<close>.
\<close>

definition typeof :: "'o jsval \<Rightarrow> string" where
  "typeof v = (case v of Undefined \<Rightarrow> ''undefined'' | Null \<Rightarrow> ''object'' | Bool b \<Rightarrow> ''boolean''
     | Num n \<Rightarrow> ''number'' | Str s \<Rightarrow> ''string'' | Object ob \<Rightarrow> ''object'')"

definition isArray :: "jval \<Rightarrow> bool" where
  "isArray v = (case v of Object (Arr xs) \<Rightarrow> True | _ \<Rightarrow> False)"

text \<open>
  \<open>String(n)\<close> for an integer: its decimal digits below \<open>10^21\<close>, exponent notation from there
  on (for an integer all of whose digits a double holds); \<open>nat_to_string\<close> gives the index
  keys of an array.
\<close>

function digits :: "int \<Rightarrow> string" where
  "digits n =
     (if n < 10 then [''0123456789'' ! nat n]
      else digits (n div 10) @ [''0123456789'' ! nat (n mod 10)])"
  by pat_completeness auto
termination
  by (relation "measure nat") auto

declare digits.simps [simp del]

definition nat_to_string :: "nat \<Rightarrow> string" where
  "nat_to_string n = digits (int n)"








text \<open>
  The own enumerable properties of an object, as \<open>Object.keys\<close> lists them, and the read
  \<open>jsonObject[p]\<close> of one of them. A map instance has the three fields its constructor
  assigns, in that order.
\<close>

fun own_props :: "jobj \<Rightarrow> (string \<times> jval) list" where
  "own_props (Obj proto ps) = ps"
| "own_props (Arr xs) = zip (map nat_to_string [0 ..< length xs]) xs"
| "own_props (MapV m) =
     [(''_keys'', Object (Arr (map prim_val (keys_arr m)))),
      (''_values'', Object (Arr (values_arr m))),
      (''length'', Num (int (length_attr m)))]"

definition Object_keys :: "jobj \<Rightarrow> string list" where
  "Object_keys ob = map fst (own_props ob)"

definition prop_get :: "jobj \<Rightarrow> string \<Rightarrow> jval" where
  "prop_get ob p = (case map_of (own_props ob) p of Some v \<Rightarrow> v | None \<Rightarrow> Undefined)"

text \<open>
  \<open>own_hidden\<close> lists the own properties that are not enumerable, and \<open>chain_of ob\<close> is
  the chain a lookup on \<open>ob\<close> walks, \<open>ob\<close> first. \<open>chain_inherits name c\<close>: the lookup of
  \<open>name\<close> along \<open>c\<close> reaches the property of \<open>Object.prototype\<close> and meets no own data property
  of that name on the way. It is used for \<open>__proto__\<close> and \<open>hasOwnProperty\<close>, which
  \<open>Array.prototype\<close> and the prototype of the map class do not define.
\<close>

definition own_hidden :: "jobj \<Rightarrow> string list" where
  "own_hidden ob = (case ob of Arr xs \<Rightarrow> [''length''] | _ \<Rightarrow> [])"

definition chain_of :: "jobj \<Rightarrow> chain" where
  "chain_of ob =
     Via (Object_keys ob @ own_hidden ob) (case ob of Obj proto ps \<Rightarrow> proto | _ \<Rightarrow> ObjectProto)"

fun chain_inherits :: "string \<Rightarrow> chain \<Rightarrow> bool" where
  "chain_inherits name ObjectProto = True"
| "chain_inherits name NullProto = False"
| "chain_inherits name (Via names proto) = (name \<notin> set names \<and> chain_inherits name proto)"

text \<open>
  The call \<open>jsonObject.hasOwnProperty(p)\<close>. No value of the model is a function, so an own
  property named \<open>hasOwnProperty\<close> on the chain, or a chain that ends at \<open>null\<close>, makes the call
  a \<open>TypeError\<close>.
\<close>

definition hasOwnProperty :: "jobj \<Rightarrow> string \<Rightarrow> error + bool" where
  "hasOwnProperty ob p =
     (if chain_inherits ''hasOwnProperty'' (chain_of ob)
      then Inr (p \<in> set (Object_keys ob) \<or> p \<in> set (own_hidden ob))
      else Inl TypeError)"


text \<open>
  \<open>forEach\<close> and \<open>map\<close> with a callback that may throw: \<open>fold_thr\<close> returns the state reached
  and the exception, if there was one.
\<close>

fun fold_thr :: "('a \<Rightarrow> 's \<Rightarrow> error + 's) \<Rightarrow> 'a list \<Rightarrow> 's \<Rightarrow> 's \<times> error option" where
  "fold_thr f [] s = (s, None)"
| "fold_thr f (x # xs) s = (case f x s of Inl e \<Rightarrow> (s, Some e) | Inr s' \<Rightarrow> fold_thr f xs s')"

fun map_thr :: "('a \<Rightarrow> error + 'b) \<Rightarrow> 'a list \<Rightarrow> error + 'b list" where
  "map_thr f [] = Inr []"
| "map_thr f (x # xs) =
     (case f x of Inl e \<Rightarrow> Inl e
      | Inr y \<Rightarrow> (case map_thr f xs of Inl e \<Rightarrow> Inl e | Inr ys \<Rightarrow> Inr (y # ys)))"

lemma fold_thr_cong [fundef_cong]:
  "xs = ys \<Longrightarrow> s = s' \<Longrightarrow> (\<And>x a. x \<in> set ys \<Longrightarrow> f x a = g x a) \<Longrightarrow> fold_thr f xs s = fold_thr g ys s'"
proof (induction ys arbitrary: xs s s')
  case Nil
  then show ?case by simp
next
  case (Cons y ys)
  then have "fold_thr f ys a = fold_thr g ys a" for a by (intro Cons.IH) auto
  then show ?case using Cons.prems by (auto split: sum.splits)
qed

lemma map_thr_cong [fundef_cong]:
  "xs = ys \<Longrightarrow> (\<And>x. x \<in> set ys \<Longrightarrow> f x = g x) \<Longrightarrow> map_thr f xs = map_thr g ys"
proof (induction ys arbitrary: xs)
  case Nil
  then show ?case by simp
next
  case (Cons y ys)
  then have "map_thr f ys = map_thr g ys" by (intro Cons.IH) auto
  then show ?case using Cons.prems by (auto split: sum.splits)
qed

text \<open>
  Measures for the recursions below: the size of a value, and a weight in which a map counts
  its keys twice, since \<open>fromJSON\<close> of a map instance reads its keys as an array.
\<close>

abbreviation sz :: "jval \<Rightarrow> nat" where
  "sz \<equiv> size_jsval size"

lemma sz_elem: "x \<in> set xs \<Longrightarrow> sz x < size_list sz xs"
  by (induction xs) auto

lemma sz_snd: "(p, v) \<in> set ps \<Longrightarrow> sz v < size_list (size_prod (\<lambda>x. 0) sz) ps"
  by (induction ps) auto

function weight :: "jval \<Rightarrow> nat"
  and weight_obj :: "jobj \<Rightarrow> nat" where
  "weight Undefined = 1"
| "weight Null = 1"
| "weight (Bool b) = 1"
| "weight (Num n) = 1"
| "weight (Str s) = 1"
| "weight (Object ob) = weight_obj ob + 1"
| "weight_obj (Arr xs) = sum_list (map weight xs) + length xs + 1"
| "weight_obj (Obj proto ps) = sum_list (map (\<lambda>p. weight (snd p)) ps) + length ps + 1"
| "weight_obj (MapV m) =
     2 * length (keys_arr m) + sum_list (map weight (values_arr m)) + length (values_arr m) + 3"
  by pat_completeness auto
termination
  apply (relation "measure (\<lambda>x. case x of Inl v \<Rightarrow> 2 * sz v | Inr ob \<Rightarrow> 2 * size ob + 1)")
  apply simp_all
  subgoal for xs x using sz_elem[of x xs] by simp
  subgoal for ps p using sz_snd[of "fst p" "snd p" ps] by simp
  subgoal for m x using sz_elem[of x "values_arr m"] by (cases m) simp
  done

lemma weight_elem: "x \<in> set xs \<Longrightarrow> weight x < sum_list (map weight xs) + length xs"
  by (induction xs) auto

lemma weight_snd: "(p, v) \<in> set ps \<Longrightarrow> weight v < sum_list (map (\<lambda>p. weight (snd p)) ps) + length ps"
  by (induction ps) auto

lemma weight_prims: "sum_list (map (weight \<circ> prim_val) ks) = length ks"
  by (induction ks) (auto simp: prim_val_def split: prim.splits)

lemma weight_prop_get:
  assumes "p \<in> set (Object_keys ob)"
  shows "weight (prop_get ob p) \<le> weight_obj ob"
proof (cases "map_of (own_props ob) p")
  case None
  then show ?thesis using assms by (simp add: Object_keys_def map_of_eq_None_iff)
next
  case (Some v)
  then have mem: "(p, v) \<in> set (own_props ob)" by (rule map_of_SomeD)
  have "weight v \<le> weight_obj ob"
  proof (cases ob)
    case (Arr xs)
    then have "v \<in> set xs" using mem by (auto dest: set_zip_rightD)
    then show ?thesis using Arr weight_elem[of v xs] by simp
  next
    case (Obj proto ps)
    then have "(p, v) \<in> set ps" using mem by simp
    then show ?thesis using Obj weight_snd[of p v ps] by simp
  next
    case (MapV m)
    then show ?thesis using mem by (auto simp: weight_prims)
  qed
  then show ?thesis using Some by (simp add: prop_get_def)
qed

text \<open>
  \<open>fromJSON(jsonObject, convertObjs)\<close> with its local function \<open>setProperty\<close>; a missing
  \<open>convertObjs\<close> is \<open>False\<close>, and \<open>jsonObject\<close> is an object. The result is the map as the call
  left it, and the exception if it threw.
\<close>

function setProperty :: "bool \<Rightarrow> jval \<Rightarrow> error + jval"
  and fromJSON :: "(prim, jval) tsmap \<Rightarrow> jobj \<Rightarrow> bool \<Rightarrow> (prim, jval) tsmap \<times> error option" where
  "setProperty convertObjs value =
     (if value \<noteq> Null \<and> typeof value = ''object'' \<and> convertObjs
      then (case value of
              Object ob \<Rightarrow> (case fromJSON empty_map ob True of
                               (t, None) \<Rightarrow> Inr (Object (MapV t))
                             | (t, Some e) \<Rightarrow> Inl e)
            | _ \<Rightarrow> Inr value)
      else if isArray value \<and> convertObjs
      then (case value of
              Object (Arr xs) \<Rightarrow> (case map_thr (setProperty convertObjs) xs of
                                     Inl e \<Rightarrow> Inl e
                                   | Inr ys \<Rightarrow> Inr (Object (Arr ys)))
            | _ \<Rightarrow> Inr value)
      else Inr value)"
| "fromJSON t jsonObject convertObjs =
     fold_thr (\<lambda>property t.
        case hasOwnProperty jsonObject property of
          Inl e \<Rightarrow> Inl e
        | Inr own \<Rightarrow>
            if own
            then (case setProperty convertObjs (prop_get jsonObject property) of
                    Inl e \<Rightarrow> Inl e
                  | Inr v \<Rightarrow> Inr (set_kv t (PStr property) v))
            else Inr t)
       (Object_keys jsonObject) t"
  by pat_completeness auto
termination
  apply (relation "measure (\<lambda>x. case x of Inl (c, v) \<Rightarrow> 2 * weight v
                                | Inr (t, ob, c) \<Rightarrow> 2 * weight_obj ob + 1)")
     apply simp_all
  subgoal for convertObjs "value" ob xs x
    using weight_elem[of x xs] by simp
  subgoal for jsonObject property
    using weight_prop_get[of property jsonObject] by simp
  done

declare setProperty.simps [simp del] fromJSON.simps [simp del]




text \<open>
  An object literal: a plain object whose prototype is \<open>Object.prototype\<close>.
\<close>

definition plain_object :: "(string \<times> jval) list \<Rightarrow> jobj" where
  "plain_object ps = Obj ObjectProto ps"







section \<open>Maps in a store\<close>

text \<open>
  Sharing is visible only when objects live at addresses. In the store a value of a map is a
  primitive or the address of an object; \<open>x.clone()\<close> allocates the new map,
  \<open>x.set(k, v)\<close> updates the map at the address of \<open>x\<close>.
\<close>

type_synonym addr = nat

datatype hobj = HMap "(addr jsval, addr jsval) tsmap" | HArr "addr jsval list"

type_synonym heap = "hobj list"

definition heap_new :: "heap \<Rightarrow> hobj \<Rightarrow> heap \<times> addr" where
  "heap_new h ob = (h @ [ob], length h)"

definition heap_map :: "heap \<Rightarrow> addr \<Rightarrow> (addr jsval, addr jsval) tsmap option" where
  "heap_map h a = (if a < length h then (case h ! a of HMap t \<Rightarrow> Some t | _ \<Rightarrow> None) else None)"

definition heap_clone :: "heap \<Rightarrow> addr \<Rightarrow> (heap \<times> addr) option" where
  "heap_clone h a = (case heap_map h a of Some t \<Rightarrow> Some (heap_new h (HMap (clone t))) | None \<Rightarrow> None)"

definition heap_set :: "heap \<Rightarrow> addr \<Rightarrow> addr jsval \<Rightarrow> addr jsval \<Rightarrow> heap option" where
  "heap_set h a key value =
     (case heap_map h a of Some t \<Rightarrow> Some (h[a := HMap (set_kv t key value)]) | None \<Rightarrow> None)"

definition heap_get :: "heap \<Rightarrow> addr \<Rightarrow> addr jsval \<Rightarrow> addr jsval option" where
  "heap_get h a key = (case heap_map h a of Some t \<Rightarrow> Some (get t key) | None \<Rightarrow> None)"

section \<open>Facts about the arrays\<close>

lemma indexOf_ge: "indexOf xs x \<ge> -1"
  by (induction xs) (auto simp: Let_def)

lemma indexOf_found: "indexOf xs x > -1 \<Longrightarrow> nat (indexOf xs x) < length xs \<and> xs ! nat (indexOf xs x) = x"
  by (induction xs) (auto simp: Let_def nat_add_distrib split: if_splits)

lemma indexOf_iff: "indexOf xs x > -1 \<longleftrightarrow> x \<in> set xs"
  by (induction xs) (auto simp: Let_def)

lemma indexOf_lt: "indexOf xs x < int (length xs)"
  by (induction xs) (auto simp: Let_def)

lemma arr_get_arr_set: "arr_get (arr_set xs i v) (int i) = Some v"
  by (auto simp: arr_get_def arr_set_def nth_append)

lemma length_splice_ins: "length (arr_splice xs i 0 [v]) = Suc (length xs)"
  by (auto simp: arr_splice_def Let_def)

lemma length_splice_del1:
  "-1 < i \<Longrightarrow> nat i < length xs \<Longrightarrow> length (arr_splice xs i (Suc 0) []) = length xs - 1"
  by (auto simp: arr_splice_def Let_def)

lemma arr_splice_ins_any: "0 \<le> i \<Longrightarrow> arr_splice xs i 0 [v] = take (nat i) xs @ v # drop (nat i) xs"
  by (auto simp: arr_splice_def Let_def min_def)

lemma key_eq_nonneg: "key_eq k (arr_get xs i) \<Longrightarrow> 0 \<le> i \<and> xs \<noteq> []"
  by (auto simp: key_eq_def arr_get_def split: if_splits)

lemma set_insert_at: "set (take i ks @ key # drop i ks) = insert key (set ks)"
proof -
  have "set (take i ks) \<union> set (drop i ks) = set ks"
    by (metis append_take_drop_id set_append)
  then show ?thesis by auto
qed

lemma sorted_insert_at:
  fixes key :: "'k::linorder"
  assumes "sorted_wrt (<) ks" "\<forall>x\<in>set (take i ks). x < key" "\<forall>x\<in>set (drop i ks). key < x"
  shows "sorted_wrt (<) (take i ks @ key # drop i ks)"
  using assms
  by (auto simp: sorted_wrt_append dest: in_set_takeD in_set_dropD)
   (metis append_take_drop_id sorted_wrt_append)

lemma sorted_take_le:
  fixes ks :: "'k::linorder list"
  assumes "sorted_wrt (<) ks" "j < length ks" "x \<in> set (take (Suc j) ks)"
  shows "x \<le> ks ! j"
proof -
  from assms(3) obtain i where i: "i < Suc j" "i < length ks" "x = ks ! i"
    by (auto simp: in_set_conv_nth)
  show ?thesis
  proof (cases "i = j")
    case True then show ?thesis using i by simp
  next
    case False
    then have "i < j" using i by simp
    then have "ks ! i < ks ! j" using assms(1,2) by (simp add: sorted_wrt_nth_less)
    then show ?thesis using i by simp
  qed
qed

lemma sorted_drop_ge:
  fixes ks :: "'k::linorder list"
  assumes "sorted_wrt (<) ks" "j < length ks" "x \<in> set (drop j ks)"
  shows "ks ! j \<le> x"
proof -
  from assms(3) obtain i where "i < length (drop j ks)" "drop j ks ! i = x"
    by (auto simp: in_set_conv_nth)
  then have i: "j + i < length ks" "x = ks ! (j + i)" by auto
  show ?thesis
  proof (cases "i = 0")
    case True then show ?thesis using i by simp
  next
    case False
    then have "ks ! j < ks ! (j + i)" using assms(1) i by (simp add: sorted_wrt_nth_less)
    then show ?thesis using i by simp
  qed
qed

lemma indexOf_nth: "distinct xs \<Longrightarrow> i < length xs \<Longrightarrow> indexOf xs (xs ! i) = int i"
proof (induction xs arbitrary: i)
  case Nil
  then show ?case by simp
next
  case (Cons x xs)
  show ?case
  proof (cases i)
    case 0
    then show ?thesis by simp
  next
    case (Suc j)
    then have "indexOf xs (xs ! j) = int j" "xs ! j \<noteq> x" using Cons by auto
    then show ?thesis using Suc by (simp add: Let_def)
  qed
qed

lemma get_nth:
  "distinct (keys_arr t) \<Longrightarrow> i < length (keys_arr t) \<Longrightarrow> i < length (values_arr t) \<Longrightarrow>
   get t (keys_arr t ! i) = values_arr t ! i"
  by (simp add: get_def indexOf_nth arr_get_def)

lemma map_get_keys:
  "distinct (keys_arr t) \<Longrightarrow> length (keys_arr t) = length (values_arr t) \<Longrightarrow>
   map (get t) (keys_arr t) = values_arr t"
  by (rule nth_equalityI) (simp_all add: get_nth)


lemma map_pair_zip: "map (\<lambda>k. (k, g k)) ks = zip ks (map g ks)"
  by (induction ks) simp_all

section \<open>The parallel arrays under \<open>set\<close>, \<open>delete\<close> and \<open>clear\<close>\<close>

lemma parallel_ok_set_kv: "parallel_ok t \<Longrightarrow> parallel_ok (set_kv t k v)"
  using indexOf_found[of "keys_arr t" k]
  by (auto simp: parallel_ok_def set_kv_def Let_def arr_set_def)

lemma parallel_ok_delete: "parallel_ok t \<Longrightarrow> parallel_ok (snd (delete t k))"
  using indexOf_found[of "keys_arr t" k]
  by (auto simp: parallel_ok_def delete_def Let_def length_splice_del1)

lemma parallel_ok_clear: "parallel_ok (clear t)"
  by (simp add: parallel_ok_def clear_def)

lemma parallel_ok_mutate: "parallel_ok t \<Longrightarrow> parallel_ok (mutate t c)"
  by (cases c) (simp_all add: parallel_ok_set_kv parallel_ok_delete parallel_ok_clear)

lemma parallel_ok_foldl: "parallel_ok t \<Longrightarrow> parallel_ok (foldl mutate t cs)"
  by (induction cs arbitrary: t) (simp_all add: parallel_ok_mutate)

lemma parallel_ok_constructor:
  fixes inputMap :: "('k \<times> 'o jsval) list option"
  shows "parallel_ok (constructor inputMap)"
proof -
  have "parallel_ok t \<Longrightarrow> parallel_ok (foldl (\<lambda>t v. set_kv t (fst v) (snd v)) t es)" for t :: "('k, 'o jsval) tsmap" and es
    by (induction es arbitrary: t) (simp_all add: parallel_ok_set_kv)
  then show ?thesis
    by (simp add: constructor_def parallel_ok_def empty_map_def split: option.splits)
qed

lemma parallel_ok_filter_by:
  fixes t :: "('k, 'o jsval) tsmap"
  shows "parallel_ok t \<Longrightarrow> parallel_ok (filter_by t callbackfn)"
proof -
  have "parallel_ok t \<Longrightarrow> parallel_ok (foldl (\<lambda>t (v, i). if callbackfn (get t v) v i = False then snd (delete t v) else t) t xs)" for t :: "('k, 'o jsval) tsmap" and xs
    by (induction xs arbitrary: t) (auto simp: parallel_ok_delete)
  then show "parallel_ok t \<Longrightarrow> parallel_ok (filter_by t callbackfn)"
    by (simp add: filter_by_def)
qed

lemma fold_thr_invariant:
  assumes "\<And>x s s'. f x s = Inr s' \<Longrightarrow> P s \<Longrightarrow> P s'" "P s"
  shows "P (fst (fold_thr f xs s))"
  using assms(2)
proof (induction xs arbitrary: s)
  case Nil
  then show ?case by simp
next
  case (Cons x xs)
  show ?case
  proof (cases "f x s")
    case (Inl e)
    then show ?thesis using Cons.prems by simp
  next
    case (Inr s')
    then have "P s'" using assms(1) Cons.prems by blast
    then show ?thesis using Inr Cons.IH by simp
  qed
qed

lemma parallel_ok_fromJSON:
  assumes "parallel_ok t"
  shows "parallel_ok (fst (fromJSON t jsonObject convertObjs))"
  unfolding fromJSON.simps[of t jsonObject convertObjs]
proof (rule fold_thr_invariant[where P = parallel_ok])
  show "parallel_ok t" by (rule assms)
next
  fix property and s s' :: "(prim, jval) tsmap"
  assume "(case hasOwnProperty jsonObject property of
          Inl e \<Rightarrow> Inl e
        | Inr own \<Rightarrow>
            if own
            then (case setProperty convertObjs (prop_get jsonObject property) of
                    Inl e \<Rightarrow> Inl e
                  | Inr v \<Rightarrow> Inr (set_kv s (PStr property) v))
            else Inr s) = Inr s'" "parallel_ok s"
  then show "parallel_ok s'"
    by (auto split: sum.splits if_splits simp: parallel_ok_set_kv)
qed

text \<open>
  Claim C7. After every sequence of \<open>set\<close>, \<open>delete\<close> and \<open>clear\<close> calls on a new map,
  \<open>size()\<close> is the length of \<open>keys()\<close>, which is the length of \<open>values()\<close>.
\<close>

theorem size_consistent:
  "size_of (foldl mutate empty_map calls) = length (keys (foldl mutate empty_map calls)) \<and>
   length (keys (foldl mutate empty_map calls)) = length (values_of (foldl mutate empty_map calls))"
proof -
  have "parallel_ok (empty_map :: ('a, 'b jsval) tsmap)" by (simp add: parallel_ok_def empty_map_def)
  then have "parallel_ok (foldl mutate (empty_map :: ('a, 'b jsval) tsmap) calls)" by (rule parallel_ok_foldl)
  then show ?thesis by (simp add: parallel_ok_def size_of_def keys_def values_of_def)
qed

text \<open>
  Claim C9. When \<open>k\<close> is present at index \<open>i\<close>, \<open>set(k, v1)\<close> followed by \<open>set(k, v2)\<close>
  leaves the keys array as it was, so \<open>k\<close> stays at index \<open>i\<close> and the number of keys does
  not change, and \<open>get(k)\<close> is \<open>v2\<close>.
\<close>

theorem set_overwrite_in_place:
  assumes "indexOf (keys t) k = int i"
  shows "keys (set_kv (set_kv t k v1) k v2) = keys (set_kv t k v1) \<and>
         keys (set_kv t k v1) = keys t \<and>
         indexOf (keys (set_kv (set_kv t k v1) k v2)) k = int i \<and>
         length (keys (set_kv (set_kv t k v1) k v2)) = length (keys (set_kv t k v1)) \<and>
         get (set_kv (set_kv t k v1) k v2) k = v2"
proof -
  have i: "indexOf (keys_arr t) k > -1" "nat (indexOf (keys_arr t) k) = i" using assms by (simp_all add: keys_def)
  have k1: "keys_arr (set_kv t k v1) = keys_arr t" using i by (simp add: set_kv_def Let_def)
  have k2: "keys_arr (set_kv (set_kv t k v1) k v2) = keys_arr t" using i k1 by (simp add: set_kv_def[of "set_kv t k v1"] Let_def)
  have v2: "values_arr (set_kv (set_kv t k v1) k v2) = arr_set (values_arr (set_kv t k v1)) i v2"
    using i k1 by (simp add: set_kv_def[of "set_kv t k v1"] Let_def)
  have "get (set_kv (set_kv t k v1) k v2) k = v2"
    using i assms by (simp add: get_def k2 v2 Let_def arr_get_arr_set keys_def)
  then show ?thesis using k1 k2 assms by (simp add: keys_def)
qed

theorem set_overwrite_in_place_witness:
  "indexOf (keys (TSMap [''a'', ''b''] [Num 1, Num 2 :: nat jsval] 2)) ''b'' = int 1 \<and>
   keys (set_kv (set_kv (TSMap [''a'', ''b''] [Num 1, Num 2 :: nat jsval] 2) ''b'' (Num 7)) ''b'' (Num 8)) = [''a'', ''b''] \<and>
   get (set_kv (set_kv (TSMap [''a'', ''b''] [Num 1, Num 2 :: nat jsval] 2) ''b'' (Num 7)) ''b'' (Num 8)) ''b'' = Num 8"
  using set_overwrite_in_place[of "TSMap [''a'', ''b''] [Num 1, Num 2 :: nat jsval] 2" "''b''" 1 "Num 7" "Num 8"]
  by (simp add: keys_def set_kv_def)

section \<open>\<open>get\<close> and the value \<open>undefined\<close>\<close>

text \<open>
  Claim C6 says that the result of \<open>get\<close> tells an absent key from a present one. It does
  not: \<open>undefined\<close> can be stored, and \<open>get\<close> returns \<open>undefined\<close> for an absent key.
\<close>

theorem get_absent_counterexample:
  "has (set_kv (empty_map :: (string, nat jsval) tsmap) ''a'' Undefined) ''a'' \<and>
   \<not> has (empty_map :: (string, nat jsval) tsmap) ''a'' \<and>
   get (set_kv (empty_map :: (string, nat jsval) tsmap) ''a'' Undefined) ''a''
     = get (empty_map :: (string, nat jsval) tsmap) ''a''"
  by (simp add: has_def get_def set_kv_def empty_map_def arr_get_def)

text \<open>
  Claim C6, amended. \<open>get(k)\<close> returns the value at the index of \<open>k\<close> when \<open>k\<close> is present
  and \<open>undefined\<close> when it is absent; a result other than \<open>undefined\<close> shows that \<open>k\<close> is
  present, and only \<open>has(k)\<close> tells an absent key from a stored \<open>undefined\<close>.
\<close>

theorem get_value_or_undefined:
  "(has t k \<longrightarrow> nat (indexOf (keys_arr t) k) < length (values_arr t) \<longrightarrow>
      get t k = values_arr t ! nat (indexOf (keys_arr t) k)) \<and>
   (\<not> has t k \<longrightarrow> get t k = Undefined) \<and>
   (get t k \<noteq> Undefined \<longrightarrow> has t k)"
  using indexOf_ge[of "keys_arr t" k]
  by (auto simp: has_def get_def Let_def arr_get_def)

theorem get_value_or_undefined_witness:
  "has (TSMap [''a'', ''b''] [Num 1, Null :: nat jsval] 2) ''b'' \<and>
   get (TSMap [''a'', ''b''] [Num 1, Null :: nat jsval] 2) ''b'' = Null \<and>
   \<not> has (TSMap [''a'', ''b''] [Num 1, Null :: nat jsval] 2) ''c'' \<and>
   get (TSMap [''a'', ''b''] [Num 1, Null :: nat jsval] 2) ''c'' = Undefined \<and>
   get (TSMap [''a'', ''b''] [Num 1, Null :: nat jsval] 2) ''a'' \<noteq> Undefined"
  using get_value_or_undefined[of "TSMap [''a'', ''b''] [Num 1, Null :: nat jsval] 2" "''b''"]
    get_value_or_undefined[of "TSMap [''a'', ''b''] [Num 1, Null :: nat jsval] 2" "''c''"]
    get_value_or_undefined[of "TSMap [''a'', ''b''] [Num 1, Null :: nat jsval] 2" "''a''"]
  by (simp add: has_def)

section \<open>\<open>sortedSet\<close>\<close>

lemma sortedSet_length_attr: "length_attr (sortedSet t key value startVal endVal) = length_attr t"
proof (induction t key "value" startVal endVal rule: sortedSet.induct)
  case (1 t key "value" startVal endVal)
  show ?case
    by (subst sortedSet.simps) (use 1 in \<open>simp add: Let_def\<close>)
qed

text \<open>
  Claim C10. No branch of \<open>sortedSet\<close> assigns \<open>length\<close>: after the call \<open>length\<close>, and so
  \<open>size()\<close>, is what it was before, whatever the map and the arguments.
\<close>

theorem sortedSet_keeps_length:
  "length_attr (sortedSet t key value startVal endVal) = length_attr t \<and>
   size_of (sortedSet t key value startVal endVal) = size_of t"
  by (simp add: sortedSet_length_attr size_of_def)

text \<open>
  Claim C1 says that every mutating operation, \<open>sortedSet\<close> among them, leaves the two
  arrays and \<open>length\<close> equal. \<open>set\<close>, \<open>delete\<close>, \<open>clear\<close>, \<open>filter\<close>, \<open>fromJSON\<close> and the
  constructor do (the lemmas on \<open>parallel_ok\<close> above); \<open>sortedSet\<close> does not. On a new map
  it appends to both arrays and leaves \<open>length\<close> at 0, where \<open>set\<close> assigns it; on a key
  that matches \<open>keys[start]\<close> it inserts into the values array alone.
\<close>

theorem sortedSet_breaks_parallel:
  "keys (sortedSet empty_map (5::int) (Str ''x'' :: nat jsval) None None) = [5] \<and>
   values_of (sortedSet empty_map (5::int) (Str ''x'' :: nat jsval) None None) = [Str ''x''] \<and>
   size_of (sortedSet empty_map (5::int) (Str ''x'' :: nat jsval) None None) = 0 \<and>
   \<not> parallel_ok (sortedSet empty_map (5::int) (Str ''x'' :: nat jsval) None None) \<and>
   keys (sortedSet (set_kv empty_map (5::int) (Str ''x'' :: nat jsval)) 5 (Str ''y'') None None) = [5] \<and>
   values_of (sortedSet (set_kv empty_map (5::int) (Str ''x'' :: nat jsval)) 5 (Str ''y'') None None) = [Str ''y'', Str ''x''] \<and>
   \<not> parallel_ok (sortedSet (set_kv empty_map (5::int) (Str ''x'' :: nat jsval)) 5 (Str ''y'') None None)"
  by (simp add: sortedSet.simps empty_map_def keys_def values_of_def size_of_def parallel_ok_def set_kv_def
        start_of_def end_of_def key_eq_def arr_get_def arr_splice_def)

text \<open>
  Claim C3. When \<open>key == keys[start]\<close>, or else \<open>key == keys[end]\<close> (the source tests
  \<open>start\<close> first), \<open>sortedSet\<close> splices the value into the values array at that index and
  leaves the keys array unchanged: the values array grows by one, the keys array does not.
\<close>

theorem sortedSet_boundary_match:
  assumes "key_eq key (arr_get (keys_arr t) (start_of startVal)) \<or>
           key_eq key (arr_get (keys_arr t) (end_of endVal t))"
  shows "keys_arr (sortedSet t key value startVal endVal) = keys_arr t \<and>
         values_arr (sortedSet t key value startVal endVal) =
           arr_splice (values_arr t)
             (if key_eq key (arr_get (keys_arr t) (start_of startVal)) then start_of startVal
              else end_of endVal t) 0 [value] \<and>
         values_arr (sortedSet t key value startVal endVal) =
           (let p = nat (if key_eq key (arr_get (keys_arr t) (start_of startVal)) then start_of startVal
                         else end_of endVal t)
            in take p (values_arr t) @ value # drop p (values_arr t)) \<and>
         length (values_arr (sortedSet t key value startVal endVal)) = Suc (length (values_arr t)) \<and>
         length (keys_arr (sortedSet t key value startVal endVal)) = length (keys_arr t)"
proof (cases "key_eq key (arr_get (keys_arr t) (start_of startVal))")
  case True
  have ne: "keys_arr t \<noteq> []" "0 \<le> start_of startVal" using key_eq_nonneg[OF True] by simp_all
  have "sortedSet t key value startVal endVal =
        TSMap (keys_arr t) (arr_splice (values_arr t) (start_of startVal) 0 [value]) (length_attr t)"
    using True ne by (subst sortedSet.simps) (simp add: Let_def)
  then show ?thesis using True ne by (auto simp: arr_splice_ins_any Let_def)
next
  case False
  then have e: "key_eq key (arr_get (keys_arr t) (end_of endVal t))" using assms by simp
  have ne: "keys_arr t \<noteq> []" "0 \<le> end_of endVal t" using key_eq_nonneg[OF e] by simp_all
  have "sortedSet t key value startVal endVal =
        TSMap (keys_arr t) (arr_splice (values_arr t) (end_of endVal t) 0 [value]) (length_attr t)"
    using False e ne by (subst sortedSet.simps) (simp add: Let_def)
  then show ?thesis using False ne by (auto simp: arr_splice_ins_any Let_def)
qed

theorem sortedSet_boundary_match_witness:
  "(key_eq (9::int) (arr_get (keys_arr (TSMap [1, 5, 9] [''y'', ''x'', ''z''] 3)) (start_of None)) \<or>
    key_eq (9::int) (arr_get (keys_arr (TSMap [1, 5, 9] [''y'', ''x'', ''z''] 3)) (end_of None (TSMap [1, 5, 9] [''y'', ''x'', ''z''] 3)))) \<and>
   sortedSet (TSMap [1, 5, 9 :: int] [''y'', ''x'', ''z''] 3) 9 ''w'' None None
     = TSMap [1, 5, 9] [''y'', ''x'', ''w'', ''z''] 3"
  using sortedSet_boundary_match[of 9 "TSMap [1, 5, 9 :: int] [''y'', ''x'', ''z''] 3" None None "''w''"]
  by (simp add: key_eq_def arr_get_def start_of_def end_of_def arr_splice_def tsmap.expand sortedSet_length_attr)

text \<open>The binary search: the key belongs between the indices \<open>start - 1\<close> and \<open>end + 1\<close>.\<close>

lemma sortedSet_keys_sorted:
  fixes key :: "'k::linorder"
  assumes "sorted_wrt (<) (keys_arr t)" "key \<notin> set (keys_arr t)" 
    "0 \<le> start_of startVal" "start_of startVal \<le> end_of endVal t"
    "end_of endVal t < int (length (keys_arr t))"
    "\<forall>x\<in>set (take (nat (start_of startVal)) (keys_arr t)). x < key"
    "\<forall>x\<in>set (drop (nat (end_of endVal t) + 1) (keys_arr t)). key < x"
  shows "sorted_wrt (<) (keys_arr (sortedSet t key value startVal endVal)) \<and>
         set (keys_arr (sortedSet t key value startVal endVal)) = insert key (set (keys_arr t))"
  using assms
proof (induction t key "value" startVal endVal rule: sortedSet.induct)
  case (1 t key "value" startVal endVal)
  define ks where "ks = keys_arr t"
  define s where "s = start_of startVal"
  define e where "e = end_of endVal t"
  note defs = ks_def s_def e_def
  have srt: "sorted_wrt (<) ks" and notin: "key \<notin> set ks" and s0: "0 \<le> s" and se: "s \<le> e"
    and elen: "e < int (length ks)"
    and lo: "\<forall>x\<in>set (take (nat s) ks). x < key"
    and hi: "\<forall>x\<in>set (drop (nat e + 1) ks). key < x"
    using "1.prems" by (simp_all add: defs)
  have s_in: "nat s < length ks" and e_in: "nat e < length ks" using s0 se elen by auto
  have ne0: "length ks \<noteq> 0" using s_in by auto
  have gs: "arr_get ks s = Some (ks ! nat s)" and ge: "arr_get ks e = Some (ks ! nat e)"
    using s0 se elen by (auto simp: arr_get_def)
  have ns: "ks ! nat s \<noteq> key" and ne: "ks ! nat e \<noteq> key"
    using s_in e_in notin nth_mem by metis+
  have eqs: "\<not> key_eq key (arr_get ks s)" "\<not> key_eq key (arr_get ks e)"
    using ns ne by (auto simp: key_eq_def gs ge)
  consider (gt) "key > ks ! nat e" | (lt) "key < ks ! nat e" "key < ks ! nat s"
    | (mid) "ks ! nat s < key" "key < ks ! nat e"
    using ns ne by force
  then show ?case
  proof cases
    case gt
    have res: "keys_arr (sortedSet t key value startVal endVal) = take (nat e + 1) ks @ key # drop (nat e + 1) ks"
      using ne0 eqs gt se s0 elen
      by (subst sortedSet.simps) (simp add: Let_def key_gt_def ge arr_splice_ins_any nat_add_distrib flip: defs)
    have "\<forall>x\<in>set (take (nat e + 1) ks). x < key"
      using sorted_take_le[OF srt e_in] gt by fastforce
    then show ?thesis unfolding res using sorted_insert_at[OF srt _ hi] set_insert_at
      by (metis ks_def)
  next
    case lt
    have res: "keys_arr (sortedSet t key value startVal endVal) = take (nat s) ks @ key # drop (nat s) ks"
      using ne0 eqs lt se s0 elen
      by (subst sortedSet.simps) (simp add: Let_def key_gt_def key_lt_def ge gs arr_splice_ins_any flip: defs)
    have "\<forall>x\<in>set (drop (nat s) ks). key < x"
      using sorted_drop_ge[OF srt s_in] lt by fastforce
    then show ?thesis unfolding res using sorted_insert_at[OF srt lo] set_insert_at
      by (metis ks_def)
  next
    case mid
    have slt: "s < e" using mid se by (cases "s = e") auto
    have nn: "\<not> key < ks ! nat s" "\<not> ks ! nat e < key" using mid by auto
    define m where "m = s + (e - s) div 2"
    have m_rng: "s \<le> m" "m < e" using slt by (auto simp: m_def)
    have m_in: "nat m < length ks" using m_rng s0 elen by auto
    have gm: "arr_get ks m = Some (ks ! nat m)" using m_rng s0 elen by (auto simp: arr_get_def)
    have nm: "ks ! nat m \<noteq> key" using m_in notin nth_mem by metis
    show ?thesis
    proof (cases "key < ks ! nat m")
      case True
      have res: "sortedSet t key value startVal endVal = sortedSet t key value (Some s) (Some (m - 1))"
        using ne0 eqs nn slt True
        by (subst sortedSet.simps) (simp add: Let_def key_gt_def key_lt_def ge gs gm flip: defs m_def)
      have "m \<noteq> s" using True mid by auto
      then have sm: "s \<le> m - 1" using m_rng by simp
      have "\<forall>x\<in>set (drop (nat (m - 1) + 1) ks). key < x"
      proof
        fix x assume "x \<in> set (drop (nat (m - 1) + 1) ks)"
        then have "x \<in> set (drop (nat m) ks)" using sm s0 by (simp add: nat_diff_distrib)
        then show "key < x" using sorted_drop_ge[OF srt m_in] True by fastforce
      qed
      then have "sorted_wrt (<) (keys_arr (sortedSet t key value (Some s) (Some (m - 1)))) \<and>
         set (keys_arr (sortedSet t key value (Some s) (Some (m - 1)))) = insert key (set (keys_arr t))"
        using ne0 eqs nn slt True srt notin s0 sm m_rng elen lo
        by (intro "1.IH"(1)[OF s_def e_def _ _ _ _ _ _ m_def])
           (simp_all add: key_gt_def key_lt_def ge gs gm start_of_def end_of_def flip: ks_def)
      then show ?thesis using res by simp
    next
      case False
      then have gtm: "ks ! nat m < key" using nm by auto
      have res: "sortedSet t key value startVal endVal = sortedSet t key value (Some (m + 1)) (Some e)"
        using ne0 eqs nn slt False gtm
        by (subst sortedSet.simps) (simp add: Let_def key_gt_def key_lt_def ge gs gm flip: defs m_def)
      have "\<forall>x\<in>set (take (nat (m + 1)) ks). x < key"
      proof
        fix x assume "x \<in> set (take (nat (m + 1)) ks)"
        then have "x \<in> set (take (Suc (nat m)) ks)" using m_rng s0 by (simp add: nat_add_distrib)
        then show "x < key" using sorted_take_le[OF srt m_in] gtm by fastforce
      qed
      then have "sorted_wrt (<) (keys_arr (sortedSet t key value (Some (m + 1)) (Some e))) \<and>
         set (keys_arr (sortedSet t key value (Some (m + 1)) (Some e))) = insert key (set (keys_arr t))"
        using ne0 eqs nn slt False gtm srt notin s0 m_rng elen hi
        by (intro "1.IH"(2)[OF s_def e_def _ _ _ _ _ _ m_def])
           (simp_all add: key_gt_def key_lt_def ge gs gm start_of_def end_of_def flip: ks_def)
      then show ?thesis using res by simp
    qed
  qed
qed

lemma sortedSet_step:
  fixes key :: "'k::linorder"
  assumes "sorted_wrt (<) (keys_arr t)" "key \<notin> set (keys_arr t)"
  shows "sorted_wrt (<) (keys_arr (sortedSet t key value None None)) \<and>
         set (keys_arr (sortedSet t key value None None)) = insert key (set (keys_arr t))"
proof (cases "keys_arr t = []")
  case True
  then show ?thesis by (subst (1 2) sortedSet.simps) (simp add: Let_def)
next
  case False
  then show ?thesis using assms
    by (intro sortedSet_keys_sorted) (simp_all add: start_of_def end_of_def)
qed

lemma sortedSet_fold:
  fixes kvs :: "('k::linorder \<times> 'v) list"
  assumes "distinct (map fst kvs)" "sorted_wrt (<) (keys_arr t)" "set (keys_arr t) \<inter> fst ` set kvs = {}"
  shows "sorted_wrt (<) (keys_arr (foldl (\<lambda>t (k, v). sortedSet t k v None None) t kvs)) \<and>
         set (keys_arr (foldl (\<lambda>t (k, v). sortedSet t k v None None) t kvs)) = set (keys_arr t) \<union> fst ` set kvs"
  using assms
proof (induction kvs arbitrary: t)
  case Nil
  then show ?case by simp
next
  case (Cons kv kvs)
  obtain k v where kv: "kv = (k, v)" by (cases kv)
  have st: "sorted_wrt (<) (keys_arr (sortedSet t k v None None)) \<and>
         set (keys_arr (sortedSet t k v None None)) = insert k (set (keys_arr t))"
    using Cons.prems kv by (intro sortedSet_step) auto
  have "sorted_wrt (<) (keys_arr (foldl (\<lambda>t (k, v). sortedSet t k v None None) (sortedSet t k v None None) kvs)) \<and>
         set (keys_arr (foldl (\<lambda>t (k, v). sortedSet t k v None None) (sortedSet t k v None None) kvs))
          = set (keys_arr (sortedSet t k v None None)) \<union> fst ` set kvs"
    using Cons.prems st kv by (intro Cons.IH) auto
  then show ?case using st kv by auto
qed

text \<open>
  Claim C2. A sequence of \<open>sortedSet\<close> calls with pairwise distinct keys on a new map leaves
  \<open>keys()\<close> strictly ascending: it is the sorted list of the keys given. The witness is the
  example of the specification: 5, 1, 9 gives \<open>[1, 5, 9]\<close>.
\<close>

theorem sortedSet_all_sorted:
  fixes kvs :: "('k::linorder \<times> 'v) list"
  assumes "distinct (map fst kvs)"
  shows "sorted_wrt (<) (keys (sortedSet_all kvs)) \<and> keys (sortedSet_all kvs) = sort (map fst kvs)"
proof -
  have a: "sorted_wrt (<) (keys (sortedSet_all kvs)) \<and> set (keys (sortedSet_all kvs)) = fst ` set kvs"
    using sortedSet_fold[of kvs empty_map] assms by (simp add: sortedSet_all_def keys_def empty_map_def)
  then have "sorted (keys (sortedSet_all kvs))" "distinct (keys (sortedSet_all kvs))"
    by (simp_all add: strict_sorted_iff)
  moreover have "set (keys (sortedSet_all kvs)) = set (sort (map fst kvs))" using a by simp
  ultimately have "keys (sortedSet_all kvs) = sort (map fst kvs)"
    using assms by (intro sorted_distinct_set_unique) simp_all
  then show ?thesis using a by simp
qed

theorem sortedSet_all_sorted_witness:
  "distinct (map fst [(5::int, ''x''), (1, ''y''), (9, ''z'')]) \<and>
   sorted_wrt (<) (keys (sortedSet_all [(5::int, ''x''), (1, ''y''), (9, ''z'')])) \<and>
   keys (sortedSet_all [(5::int, ''x''), (1, ''y''), (9, ''z'')]) = [1, 5, 9]"
  using sortedSet_all_sorted[of "[(5::int, ''x''), (1, ''y''), (9, ''z'')]"]
  by simp

section \<open>\<open>clone\<close>\<close>

lemma set_kv_fresh:
  "k \<notin> set (keys_arr t) \<Longrightarrow>
   set_kv t k v = TSMap (keys_arr t @ [k]) (values_arr t @ [v]) (Suc (length (values_arr t)))"
  using indexOf_iff[of "keys_arr t" k] by (simp add: set_kv_def Let_def)

lemma foldl_set_kv_append:
  assumes "distinct (map fst kvs)" "fst ` set kvs \<inter> set (keys_arr t) = {}"
  shows "foldl (\<lambda>t v. set_kv t (fst v) (snd v)) t kvs
       = (if kvs = [] then t
          else TSMap (keys_arr t @ map fst kvs) (values_arr t @ map snd kvs)
                 (length (values_arr t) + length kvs))"
  using assms
proof (induction kvs arbitrary: t)
  case Nil
  then show ?case by simp
next
  case (Cons q kvs)
  let ?t1 = "TSMap (keys_arr t @ [fst q]) (values_arr t @ [snd q]) (Suc (length (values_arr t)))"
  have 1: "set_kv t (fst q) (snd q) = ?t1" using Cons.prems by (intro set_kv_fresh) auto
  have "foldl (\<lambda>t v. set_kv t (fst v) (snd v)) ?t1 kvs
       = (if kvs = [] then ?t1
          else TSMap (keys_arr ?t1 @ map fst kvs) (values_arr ?t1 @ map snd kvs)
                 (length (values_arr ?t1) + length kvs))"
    using Cons.prems by (intro Cons.IH) auto
  then show ?case using 1 by simp
qed

text \<open>On a map with distinct keys and parallel arrays the clone has the same keys and the same values.\<close>

lemma clone_same_arrays:
  fixes t :: "('k, 'o jsval) tsmap"
  assumes "distinct (keys_arr t)" "parallel_ok t"
  shows "clone t = t"
proof -
  have l: "length (keys_arr t) = length (values_arr t)" "length (values_arr t) = length_attr t"
    using assms(2) by (simp_all add: parallel_ok_def)
  have e: "entries t = zip (keys_arr t) (values_arr t)"
    using map_get_keys[OF assms(1) l(1)] by (simp add: entries_def keys_def map_pair_zip)
  have f: "map fst (entries t) = keys_arr t" and s: "map snd (entries t) = values_arr t"
    using l by (simp_all add: e)
  have "clone t = foldl (\<lambda>t v. set_kv t (fst v) (snd v)) empty_map (entries t)"
    by (simp add: clone_def constructor_def)
  also have "\<dots> = (if entries t = [] then empty_map
          else TSMap (map fst (entries t)) (map snd (entries t)) (length (entries t)))"
    using foldl_set_kv_append[where kvs = "entries t" and t = "empty_map :: ('k, 'o jsval) tsmap"]
      assms(1) f
    by (simp add: empty_map_def)
  also have "\<dots> = t"
  proof -
    have len: "length (entries t) = length (keys_arr t)" by (simp add: entries_def keys_def)
    show ?thesis unfolding f s len using l
      by (cases t) (auto simp: entries_def keys_def empty_map_def)
  qed
  finally show ?thesis .
qed

text \<open>
  Claim C4 says that the clone shares no mutable storage with the original, nested maps and
  arrays included, as the comment on \<open>clone\<close> in the source does. The values are copied as
  they are: the map at address 0 holds the map at address 1 under \<open>a\<close>, its clone at address
  2 holds the same address, and a \<open>set\<close> on the map reached through the clone is seen
  through the original.
\<close>

theorem clone_shares_nested:
  "heap_clone [HMap (TSMap [Str ''a''] [Object 1] 1), HMap (TSMap [Str ''c''] [Num 2] 1)] 0
     = Some ([HMap (TSMap [Str ''a''] [Object 1] 1), HMap (TSMap [Str ''c''] [Num 2] 1),
              HMap (TSMap [Str ''a''] [Object 1] 1)], 2) \<and>
   heap_get [HMap (TSMap [Str ''a''] [Object 1] 1), HMap (TSMap [Str ''c''] [Num 2] 1),
              HMap (TSMap [Str ''a''] [Object 1] 1)] 2 (Str ''a'') = Some (Object 1) \<and>
   heap_get [HMap (TSMap [Str ''a''] [Object 1] 1), HMap (TSMap [Str ''c''] [Num 2] 1),
              HMap (TSMap [Str ''a''] [Object 1] 1)] 0 (Str ''a'') = Some (Object 1) \<and>
   heap_set [HMap (TSMap [Str ''a''] [Object 1] 1), HMap (TSMap [Str ''c''] [Num 2] 1),
              HMap (TSMap [Str ''a''] [Object 1] 1)] 1 (Str ''c'') (Num 99)
     = Some [HMap (TSMap [Str ''a''] [Object 1] 1), HMap (TSMap [Str ''c''] [Num 99] 1),
              HMap (TSMap [Str ''a''] [Object 1] 1)] \<and>
   heap_get [HMap (TSMap [Str ''a''] [Object 1] 1), HMap (TSMap [Str ''c''] [Num 2] 1)] 1 (Str ''c'')
     = Some (Num 2) \<and>
   heap_get [HMap (TSMap [Str ''a''] [Object 1] 1), HMap (TSMap [Str ''c''] [Num 99] 1),
              HMap (TSMap [Str ''a''] [Object 1] 1)] 1 (Str ''c'') = Some (Num 99)"
  by code_simp

section \<open>\<open>fromJSON\<close> and \<open>toJSON\<close>\<close>





















text \<open>
  Claim C5 says that with \<open>convertObjs\<close> an array value stays an array, its elements
  converted. The first test of \<open>setProperty\<close> takes every object, and an array is one: the
  array becomes a map keyed by its indices, never an array, and the branch for arrays is not
  reached.
\<close>

theorem fromJSON_array_to_map:
  "setProperty True (Object (Arr xs)) =
     (case fromJSON empty_map (Arr xs) True of
        (t, None) \<Rightarrow> Inr (Object (MapV t)) | (t, Some e) \<Rightarrow> Inl e) \<and>
   setProperty True (Object (Arr xs)) \<noteq> Inr (Object (Arr ys)) \<and>
   fromJSON empty_map (plain_object [(''a'', Object (Arr [Num 1]))]) True
     = (TSMap [PStr ''a''] [Object (MapV (TSMap [PStr ''0''] [Num 1] 1))] 1, None)"
proof (intro conjI)
  show 1: "setProperty True (Object (Arr xs)) =
     (case fromJSON empty_map (Arr xs) True of
        (t, None) \<Rightarrow> Inr (Object (MapV t)) | (t, Some e) \<Rightarrow> Inl e)"
    by (simp add: setProperty.simps typeof_def)
  show "setProperty True (Object (Arr xs)) \<noteq> Inr (Object (Arr ys))"
    unfolding 1 by (auto split: prod.splits option.splits)
  show "fromJSON empty_map (plain_object [(''a'', Object (Arr [Num 1]))]) True
     = (TSMap [PStr ''a''] [Object (MapV (TSMap [PStr ''0''] [Num 1] 1))] 1, None)"
    by code_simp
qed







end
